theory Spec2Isabelle
  imports Main "HOL-Library.AList"
begin

section \<open>JavaScript values\<close>

text \<open>
  The access-control code of the repository reads loosely typed data: the session
  (\<^verbatim>\<open>session?.user\<close>), a component's parameters
  (\<^verbatim>\<open>parameters?.accessType?.value as string | undefined\<close>) and the enhancer data
  (\<^verbatim>\<open>data?._accessControl as AccessControlResult | undefined\<close>).  The casts are not
  checked at run time, so these values are modelled as JavaScript values.  Numbers are
  integers here (no claim depends on fractions or NaN), objects are association lists in
  property order (a JavaScript object holds each key once; \<open>map_of\<close> reads the first).
\<close>

datatype jsval =
    JUndefined
  | JNull
  | JBool bool
  | JNum int
  | JStr string
  | JObj "(string \<times> jsval) list"

type_synonym jsobj = "(string \<times> jsval) list"

text \<open>Truthiness, as \<^verbatim>\<open>!!v\<close>, \<^verbatim>\<open>if (v)\<close>, \<^verbatim>\<open>v || w\<close> and \<^verbatim>\<open>v && w\<close> test it.\<close>

fun truthy :: "jsval \<Rightarrow> bool" where
  "truthy JUndefined = False"
| "truthy JNull = False"
| "truthy (JBool b) = b"
| "truthy (JNum n) = (n \<noteq> 0)"
| "truthy (JStr s) = (s \<noteq> [])"
| "truthy (JObj kvs) = True"

text \<open>
  Property access \<^verbatim>\<open>v?.k\<close>: \<^verbatim>\<open>undefined\<close> on \<^verbatim>\<open>null\<close> and \<^verbatim>\<open>undefined\<close>, and
  (for the property names read by this code) on every primitive value.  The source reads
  a property without \<^verbatim>\<open>?.\<close> only from a context object or from a value it has just
  tested to be truthy, where \<^verbatim>\<open>v.k\<close> and \<^verbatim>\<open>v?.k\<close> agree.
\<close>

fun field :: "jsval \<Rightarrow> string \<Rightarrow> jsval" where
  "field (JObj kvs) k = (case map_of kvs k of Some v \<Rightarrow> v | None \<Rightarrow> JUndefined)"
| "field v k = JUndefined"

text \<open>The same for an optional record (\<^verbatim>\<open>component.data?.k\<close>, \<^verbatim>\<open>component.parameters?.k\<close>).\<close>

definition opt_field :: "jsobj option \<Rightarrow> string \<Rightarrow> jsval" where
  "opt_field ob k = (case ob of None \<Rightarrow> JUndefined | Some kvs \<Rightarrow> field (JObj kvs) k)"

text \<open>\<^verbatim>\<open>a || b\<close> and \<^verbatim>\<open>a && b\<close> return one of their operands.\<close>

definition js_or :: "jsval \<Rightarrow> jsval \<Rightarrow> jsval" where
  "js_or a b = (if truthy a then a else b)"

definition js_and :: "jsval \<Rightarrow> jsval \<Rightarrow> jsval" where
  "js_and a b = (if truthy a then b else a)"


section \<open>The composition tree\<close>

text \<open>
  \<^verbatim>\<open>ComponentInstance\<close> and \<^verbatim>\<open>RootComponentInstance\<close> of the CMS SDK, restricted to the
  properties the access-control code touches: \<^verbatim>\<open>type\<close>, \<^verbatim>\<open>parameters?\<close>, \<^verbatim>\<open>data?\<close> and
  \<^verbatim>\<open>slots?\<close>.  A slot is declared as an array of components; the filter guards every
  slot with \<^verbatim>\<open>Array.isArray\<close>, so a slot holding anything else is a value of the model
  too.  The tree comes from a JSON response: no component object occurs twice in it, which
  is why the in-place mutation of the source is modelled by returning the new tree.
\<close>

datatype component =
  Component (ctype: string) (parameters: "jsobj option") (data: "jsobj option")
            (slots: "(string \<times> slot) list option")
and slot = SlotArray "component list" | SlotOther jsval


section \<open>The access-control enhancer (createAccessControlEnhancer)\<close>

record AccessControlEnhancerContext =
  preview :: bool
  isCanvasMode :: bool
  session :: jsval

definition AccessControlResult :: "bool \<Rightarrow> string \<Rightarrow> jsval" where
  "AccessControlResult allowed reason =
     JObj [(''allowed'', JBool allowed), (''reason'', JStr reason)]"

text \<open>The callback registered with \<^verbatim>\<open>.data('_authState', ...)\<close>.\<close>

definition authState_enhancer :: "AccessControlEnhancerContext \<Rightarrow> jsval" where
  "authState_enhancer enhancerContext =
     JObj [(''isAuthenticated'', JBool (truthy (field (session enhancerContext) ''user''))),
           (''user'', js_or (field (session enhancerContext) ''user'') JNull)]"

text \<open>\<^verbatim>\<open>component.parameters?.accessType?.value\<close>\<close>

definition accessType_of :: "component \<Rightarrow> jsval" where
  "accessType_of component =
     field (opt_field (parameters component) ''accessType'') ''value''"

text \<open>The callback registered with \<^verbatim>\<open>.data('_accessControl', ...)\<close>.\<close>

definition accessControl_enhancer :: "component \<Rightarrow> AccessControlEnhancerContext \<Rightarrow> jsval" where
  "accessControl_enhancer component enhancerContext =
     (if isCanvasMode enhancerContext then AccessControlResult True ''canvas-mode''
      else
        let accessType = accessType_of component in
        if \<not> truthy accessType \<or> accessType = JStr ''everyone''
        then AccessControlResult True ''everyone''
        else
          let isAuthenticated = truthy (field (session enhancerContext) ''user'') in
          if accessType = JStr ''users'' \<and> \<not> isAuthenticated
          then AccessControlResult False ''requires-auth''
          else if accessType = JStr ''anonymous'' \<and> isAuthenticated
          then AccessControlResult False ''anonymous-only''
          else AccessControlResult True ''authorized'')"


section \<open>The enhancement pass (enhance of the CMS SDK)\<close>

text \<open>
  Modelled from the spec: \<^verbatim>\<open>enhance\<close> is a function of the CMS SDK, not of this
  repository.  The repository relies on it as the spec's Annotator describes it: for every
  node of the tree (the root and all descendants, recursively, across all slots) it runs
  each registered data callback on the node and the context and stores the result under
  the callback's key in the node's \<^verbatim>\<open>data\<close> (created when absent); it removes and reorders
  nothing.  Assigning an existing key of an object keeps the key's place, assigning a new
  one appends it: \<open>AList.update\<close>.
\<close>

definition set_data :: "string \<Rightarrow> jsval \<Rightarrow> component \<Rightarrow> component" where
  "set_data k v component =
     Component (ctype component) (parameters component)
       (Some (AList.update k v (case data component of None \<Rightarrow> [] | Some d \<Rightarrow> d)))
       (slots component)"

definition enhance_component :: "AccessControlEnhancerContext \<Rightarrow> component \<Rightarrow> component" where
  "enhance_component ctx component =
     set_data ''_accessControl'' (accessControl_enhancer component ctx)
       (set_data ''_authState'' (authState_enhancer ctx) component)"

function enhance :: "AccessControlEnhancerContext \<Rightarrow> component \<Rightarrow> component" where
  "enhance ctx component =
     (let c = enhance_component ctx component in
      Component (ctype c) (parameters c) (data c)
        (case slots c of
           None \<Rightarrow> None
         | Some ss \<Rightarrow>
             Some (map (\<lambda>(slotName, slot).
                      (case slot of
                         SlotArray a \<Rightarrow> (slotName, SlotArray (map (enhance ctx) a))
                       | SlotOther v \<Rightarrow> (slotName, slot))) ss)))"
  by pat_completeness auto
termination
proof (relation "measure (\<lambda>(ctx, component). size component)", goal_cases)
  case 1
  show ?case by simp
next
  case (2 ctx component c ss entry slotName slot a x)
  from \<open>x \<in> set a\<close> have "size x \<le> size_list size a"
    by (rule size_list_estimation') simp
  also from 2 have "(slotName, SlotArray a) \<in> set ss" by simp
  then have "size_list size a < size_list (size_prod (\<lambda>x. 0) size) ss"
    by (induction ss) auto
  also from 2 have "\<dots> < size component"
    by (cases component) (simp add: enhance_component_def set_data_def)
  finally show ?case by simp
qed


section \<open>The filter (filterUnauthorizedComponents)\<close>

text \<open>The callback of \<^verbatim>\<open>components.filter(...)\<close> in \<^verbatim>\<open>filterSlot\<close>.\<close>

definition is_kept :: "component \<Rightarrow> bool" where
  "is_kept component =
     (let accessControl = opt_field (data component) ''_accessControl'' in
      if \<not> truthy accessControl then True
      else field accessControl ''allowed'' \<noteq> JBool False)"

text \<open>
  \<^verbatim>\<open>filterSlot\<close>: \<^verbatim>\<open>components.filter(...).map(...)\<close>, where the \<^verbatim>\<open>map\<close> callback
  replaces every array slot of the component by its filtered array and returns the
  component.
\<close>

function filterSlot :: "component list \<Rightarrow> component list" where
  "filterSlot components =
     map (\<lambda>component.
            (case slots component of
               None \<Rightarrow> component
             | Some ss \<Rightarrow>
                 Component (ctype component) (parameters component) (data component)
                   (Some (map (\<lambda>(slotName, slot).
                            (case slot of
                               SlotArray a \<Rightarrow> (slotName, SlotArray (filterSlot a))
                             | SlotOther v \<Rightarrow> (slotName, slot))) ss))))
         (filter is_kept components)"
  by pat_completeness auto
termination
proof (relation "measure (size_list size)", goal_cases)
  case 1
  show ?case by simp
next
  case (2 components x ss entry slotName slot a)
  then have "(slotName, SlotArray a) \<in> set ss" by simp
  then have "size_list size a < size_list (size_prod (\<lambda>x. 0) size) ss"
    by (induction ss) auto
  also from \<open>slots x = Some ss\<close> have "\<dots> < size x" by (cases x) simp
  also have "\<dots> \<le> size_list size components"
  proof (rule size_list_estimation')
    show "x \<in> set components" using 2 by simp
  qed simp
  finally show ?case by simp
qed

text \<open>The body of \<^verbatim>\<open>filterUnauthorizedComponents\<close>: every array slot of the root is filtered.\<close>

definition filterUnauthorizedComponents :: "component \<Rightarrow> component" where
  "filterUnauthorizedComponents composition =
     (case slots composition of
        None \<Rightarrow> composition
      | Some ss \<Rightarrow>
          Component (ctype composition) (parameters composition) (data composition)
            (Some (map (\<lambda>(slotName, slot).
                     (case slot of
                        SlotArray a \<Rightarrow> (slotName, SlotArray (filterSlot a))
                      | SlotOther v \<Rightarrow> (slotName, slot))) ss)))"


section \<open>The pages that call the enhancer and the filter\<close>

text \<open>
  \<^verbatim>\<open>searchParams\<close> of a page maps a query parameter to a string, to an array of strings
  when the parameter is repeated, or to nothing.
\<close>

datatype query_value = QString string | QArray "string list"

type_synonym search_params = "(string \<times> query_value) list option"

text \<open>\<^verbatim>\<open>searchParams?.is_incontext_editing_mode === 'true'\<close>\<close>

definition is_incontext_editing_mode :: "search_params \<Rightarrow> bool" where
  "is_incontext_editing_mode searchParams =
     (case searchParams of
        None \<Rightarrow> False
      | Some q \<Rightarrow> map_of q ''is_incontext_editing_mode'' = Some (QString ''true''))"

text \<open>\<^verbatim>\<open>isCanvasMode\<close> as \<^verbatim>\<open>CMSPage\<close> and \<^verbatim>\<open>HomePage\<close> compute it.\<close>

definition CMSPage_isCanvasMode :: "bool \<Rightarrow> search_params \<Rightarrow> bool" where
  "CMSPage_isCanvasMode isDraftMode searchParams =
     (let isIncontextEditing = is_incontext_editing_mode searchParams in
      isDraftMode \<or> isIncontextEditing)"

definition HomePage_isCanvasMode :: "bool \<Rightarrow> search_params \<Rightarrow> bool" where
  "HomePage_isCanvasMode isDraftMode searchParams =
     (isDraftMode \<or> is_incontext_editing_mode searchParams)"

text \<open>
  \<^verbatim>\<open>isCanvasMode\<close> as \<^verbatim>\<open>getCanvasMode\<close> (and \<^verbatim>\<open>detectCanvasMode\<close>) compute it for the
  components: \<^verbatim>\<open>isContextualEditing && (isDraftMode || serverDraftMode)\<close>, where the first
  two are optional properties of the composition context and the third is the draft-mode
  state of the request.
\<close>

definition getCanvasMode_isCanvasMode :: "jsval \<Rightarrow> jsval \<Rightarrow> bool \<Rightarrow> jsval" where
  "getCanvasMode_isCanvasMode isContextualEditing isDraftMode serverDraftMode =
     js_and isContextualEditing (js_or isDraftMode (JBool serverDraftMode))"

text \<open>
  The component-level access control of both pages (\<^verbatim>\<open>if (composition) { ... }\<close>):
  step 1 runs the enhancer, step 2 runs the filter unless \<^verbatim>\<open>isCanvasMode\<close>.
\<close>

definition component_access_control ::
  "bool \<Rightarrow> bool \<Rightarrow> jsval \<Rightarrow> component \<Rightarrow> component" where
  "component_access_control isDraftMode canvasMode sess composition =
     (let enhanced =
            enhance \<lparr>preview = isDraftMode, isCanvasMode = canvasMode, session = sess\<rparr>
              composition
      in if \<not> canvasMode then filterUnauthorizedComponents enhanced else enhanced)"

definition HomePage_composition ::
  "bool \<Rightarrow> search_params \<Rightarrow> jsval \<Rightarrow> component \<Rightarrow> component" where
  "HomePage_composition isDraftMode searchParams sess composition =
     component_access_control isDraftMode
       (HomePage_isCanvasMode isDraftMode searchParams) sess composition"

text \<open>
  \<^verbatim>\<open>CMSPage\<close> first enforces the composition's own \<^verbatim>\<open>accessType\<close> (a redirect to the
  access-denied page, which ends the request), unless \<^verbatim>\<open>isCanvasMode\<close>.
\<close>

datatype page_outcome = AccessDenied string | Rendered component

definition CMSPage_composition ::
  "bool \<Rightarrow> search_params \<Rightarrow> jsval \<Rightarrow> component \<Rightarrow> page_outcome" where
  "CMSPage_composition isDraftMode searchParams sess composition =
     (let canvasMode = CMSPage_isCanvasMode isDraftMode searchParams;
          isAuthenticated = truthy (field sess ''user'');
          accessType = (case accessType_of composition of
                          JStr s \<Rightarrow> JStr s
                        | _ \<Rightarrow> JStr ''everyone'')
      in if \<not> canvasMode \<and> accessType = JStr ''users'' \<and> \<not> isAuthenticated
         then AccessDenied ''users''
         else if \<not> canvasMode \<and> accessType = JStr ''anonymous'' \<and> isAuthenticated
         then AccessDenied ''anonymous''
         else Rendered (component_access_control isDraftMode canvasMode sess composition))"


section \<open>Nodes of a tree\<close>

text \<open>The array slots of a component, its children (in slot order, then array order).\<close>

definition array_slots :: "component \<Rightarrow> (string \<times> component list) list" where
  "array_slots c =
     concat (map (\<lambda>(slotName, slot).
                    (case slot of SlotArray a \<Rightarrow> [(slotName, a)] | SlotOther v \<Rightarrow> []))
                 (case slots c of None \<Rightarrow> [] | Some ss \<Rightarrow> ss))"

definition children :: "component \<Rightarrow> component list" where
  "children c = concat (map snd (array_slots c))"

text \<open>A component and all its descendants, in document order.\<close>

function subnodes :: "component \<Rightarrow> component list" where
  "subnodes c = c # concat (map subnodes (children c))"
  by pat_completeness auto
termination
proof (relation "measure size", goal_cases)
  case 1
  show ?case by simp
next
  case (2 c x)
  then obtain slotName a where a: "(slotName, a) \<in> set (array_slots c)" and x: "x \<in> set a"
    by (auto simp: children_def)
  then obtain ss where ss: "slots c = Some ss" and e: "(slotName, SlotArray a) \<in> set ss"
    by (cases "slots c") (auto simp: array_slots_def split: slot.splits)
  from x have "size x \<le> size_list size a"
    by (rule size_list_estimation') simp
  also from e have "\<dots> < size_list (size_prod (\<lambda>x. 0) size) ss"
    by (induction ss) auto
  also from ss have "\<dots> < size c" by (cases c) simp
  finally show ?case by simp
qed

definition descendants :: "component \<Rightarrow> component list" where
  "descendants c = concat (map subnodes (children c))"

text \<open>
  Everything of a component but the contents of its array slots: type, parameters, data,
  the slot names in their order and the slots that are not arrays.
\<close>

definition shallow ::
  "component \<Rightarrow> string \<times> jsobj option \<times> jsobj option \<times> (string \<times> jsval option) list option" where
  "shallow c =
     (ctype c, parameters c, data c,
      map_option (map (\<lambda>(slotName, slot).
                     (slotName, case slot of SlotArray a \<Rightarrow> None | SlotOther v \<Rightarrow> Some v)))
        (slots c))"

text \<open>Type, parameters and the length of every array slot: the shape of the tree at a node.\<close>

definition node_shape :: "component \<Rightarrow> string \<times> jsobj option \<times> (string \<times> nat) list" where
  "node_shape c = (ctype c, parameters c, map (\<lambda>(slotName, a). (slotName, length a)) (array_slots c))"

text \<open>
  A node is denied when its \<^verbatim>\<open>_accessControl.allowed\<close> is \<^verbatim>\<open>false\<close>.  The nodes that a
  viewer may see below a component are its children that are not denied, and below each
  of these again the children that are not denied: nothing below a denied node.
\<close>

definition is_denied :: "component \<Rightarrow> bool" where
  "is_denied c = (field (opt_field (data c) ''_accessControl'') ''allowed'' = JBool False)"

function visible :: "component \<Rightarrow> component list" where
  "visible c = c # concat (map visible (filter (\<lambda>x. \<not> is_denied x) (children c)))"
  by pat_completeness auto
termination
proof (relation "measure size", goal_cases)
  case 1
  show ?case by simp
next
  case (2 c x)
  then obtain slotName a where a: "(slotName, a) \<in> set (array_slots c)" and x: "x \<in> set a"
    by (auto simp: children_def)
  then obtain ss where ss: "slots c = Some ss" and e: "(slotName, SlotArray a) \<in> set ss"
    by (cases "slots c") (auto simp: array_slots_def split: slot.splits)
  from x have "size x \<le> size_list size a"
    by (rule size_list_estimation') simp
  also from e have "\<dots> < size_list (size_prod (\<lambda>x. 0) size) ss"
    by (induction ss) auto
  also from ss have "\<dots> < size c" by (cases c) simp
  finally show ?case by simp
qed

text \<open>Replacing every array slot \<open>a\<close> of a component by \<open>f a\<close>.\<close>

definition map_array_slots :: "(component list \<Rightarrow> component list) \<Rightarrow> component \<Rightarrow> component" where
  "map_array_slots f c =
     Component (ctype c) (parameters c) (data c)
       (map_option (map (\<lambda>(slotName, slot).
                      (case slot of
                         SlotArray a \<Rightarrow> (slotName, SlotArray (f a))
                       | SlotOther v \<Rightarrow> (slotName, SlotOther v)))) (slots c))"


section \<open>The spec's formula for the authentication snapshot\<close>

text \<open>
  \<^verbatim>\<open>{ isAuthenticated: session != null, user: session?.user ?? null }\<close>, as the spec
  writes it: \<^verbatim>\<open>!= null\<close> excludes \<^verbatim>\<open>null\<close> and \<^verbatim>\<open>undefined\<close>, and \<^verbatim>\<open>??\<close> replaces
  exactly these two.
\<close>

definition nullish :: "jsval \<Rightarrow> bool" where
  "nullish v = (v = JNull \<or> v = JUndefined)"

definition spec_authState :: "jsval \<Rightarrow> jsval" where
  "spec_authState sess =
     JObj [(''isAuthenticated'', JBool (\<not> nullish sess)),
           (''user'', if nullish (field sess ''user'') then JNull else field sess ''user'')]"

text \<open>
  The sessions the enhancer receives.  Its context declares \<^verbatim>\<open>session?: Session | null\<close>,
  the pages pass the result of \<^verbatim>\<open>getServerSession(authOptions)\<close>, and \<^verbatim>\<open>user\<close> is a
  required object property of \<^verbatim>\<open>Session\<close> (\<^verbatim>\<open>types/next-auth.d.ts\<close>): the session is
  \<^verbatim>\<open>null\<close> or \<^verbatim>\<open>undefined\<close>, or it carries a user, and an object is truthy.
\<close>

definition Session_or_null :: "jsval \<Rightarrow> bool" where
  "Session_or_null sess = (if nullish sess then True else truthy (field sess ''user''))"


section \<open>Example trees and sessions\<close>

definition accessType_parameter :: "string \<Rightarrow> jsobj" where
  "accessType_parameter s =
     [(''accessType'', JObj [(''type'', JStr ''select''), (''value'', JStr s)])]"

text \<open>A leaf component with the given type and access type.\<close>

definition leaf :: "string \<Rightarrow> string \<Rightarrow> component" where
  "leaf t s = Component t (Some (accessType_parameter s)) None None"

text \<open>Scenarios A to C of the spec: root, slot main, one node for users only.\<close>

definition scenario_users :: component where
  "scenario_users =
     Component ''page'' None None (Some [(''main'', SlotArray [leaf ''NodeX'' ''users''])])"

text \<open>
  Scenarios D and E of the spec: root, slot s, a node for anonymous visitors only, and in
  its slot inner a node for everyone.
\<close>

definition scenario_nested :: component where
  "scenario_nested =
     Component ''page'' None None
       (Some [(''s'', SlotArray
          [Component ''NodeA'' (Some (accessType_parameter ''anonymous'')) None
             (Some [(''inner'', SlotArray [leaf ''NodeB'' ''everyone''])])])])"

definition alice_session :: jsval where
  "alice_session =
     JObj [(''user'', JObj [(''name'', JStr ''alice'')]), (''expires'', JStr ''2030-01-01'')]"

definition visitor :: "jsval \<Rightarrow> AccessControlEnhancerContext" where
  "visitor sess = \<lparr>preview = False, isCanvasMode = False, session = sess\<rparr>"

definition editing_query :: search_params where
  "editing_query = Some [(''is_incontext_editing_mode'', QString ''true'')]"

text \<open>Annotated nodes as the enhancer leaves them.\<close>

definition annotated :: "string \<Rightarrow> bool \<Rightarrow> component list \<Rightarrow> component" where
  "annotated t allowed cs =
     Component t None
       (Some [(''_accessControl'',
               AccessControlResult allowed (if allowed then ''authorized'' else ''requires-auth''))])
       (Some [(''content'', SlotArray cs)])"

text \<open>The data of a node after the enhancer has run.\<close>

definition enhancer_data :: "bool \<Rightarrow> jsval \<Rightarrow> bool \<Rightarrow> string \<Rightarrow> jsobj" where
  "enhancer_data isAuthenticated user allowed reason =
     [(''_authState'', JObj [(''isAuthenticated'', JBool isAuthenticated), (''user'', user)]),
      (''_accessControl'', AccessControlResult allowed reason)]"



section \<open>Basic facts about the tree operations\<close>

declare enhance.simps [simp del] filterSlot.simps [simp del]
  subnodes.simps [simp del] visible.simps [simp del]

lemma array_slots_iff:
  "(n, a) \<in> set (array_slots c) \<longleftrightarrow> (\<exists>ss. slots c = Some ss \<and> (n, SlotArray a) \<in> set ss)"
  by (cases "slots c") (auto simp: array_slots_def split: slot.splits)

lemma map_array_slots_sel [simp]:
  "ctype (map_array_slots f c) = ctype c"
  "parameters (map_array_slots f c) = parameters c"
  "data (map_array_slots f c) = data c"
  by (simp_all add: map_array_slots_def)

lemma array_slots_map_array_slots:
  "array_slots (map_array_slots f c) = map (\<lambda>(n, a). (n, f a)) (array_slots c)"
proof (cases "slots c")
  case None
  then show ?thesis by (simp add: array_slots_def map_array_slots_def)
next
  case (Some ss)
  have "concat (map (\<lambda>(slotName, slot). case slot of SlotArray a \<Rightarrow> [(slotName, a)] | SlotOther v \<Rightarrow> [])
          (map (\<lambda>(slotName, slot). case slot of SlotArray a \<Rightarrow> (slotName, SlotArray (f a))
                 | SlotOther v \<Rightarrow> (slotName, SlotOther v)) ss))
      = map (\<lambda>(n, a). (n, f a))
          (concat (map (\<lambda>(slotName, slot). case slot of SlotArray a \<Rightarrow> [(slotName, a)] | SlotOther v \<Rightarrow> []) ss))"
    by (induction ss) (auto split: slot.splits)
  with Some show ?thesis by (simp add: array_slots_def map_array_slots_def)
qed

lemma children_map_array_slots:
  "children (map_array_slots f c) = concat (map (\<lambda>(n, a). f a) (array_slots c))"
  by (simp add: children_def array_slots_map_array_slots comp_def case_prod_unfold)

lemma map_array_slots_cong:
  assumes "\<And>n a. (n, a) \<in> set (array_slots c) \<Longrightarrow> f a = g a"
  shows "map_array_slots f c = map_array_slots g c"
proof (cases "slots c")
  case None
  then show ?thesis by (simp add: map_array_slots_def)
next
  case (Some ss)
  have "\<And>n a. (n, SlotArray a) \<in> set ss \<Longrightarrow> f a = g a"
    using assms Some by (simp add: array_slots_iff)
  then have "map (\<lambda>(slotName, slot). case slot of SlotArray a \<Rightarrow> (slotName, SlotArray (f a))
                 | SlotOther v \<Rightarrow> (slotName, SlotOther v)) ss
     = map (\<lambda>(slotName, slot). case slot of SlotArray a \<Rightarrow> (slotName, SlotArray (g a))
                 | SlotOther v \<Rightarrow> (slotName, SlotOther v)) ss"
    by (auto split: slot.splits)
  with Some show ?thesis by (simp add: map_array_slots_def)
qed

lemma map_array_slots_comp:
  "map_array_slots f (map_array_slots g c) = map_array_slots (\<lambda>a. f (g a)) c"
  by (cases "slots c") (auto simp: map_array_slots_def split: slot.splits)

lemma map_array_slots_ident:
  assumes "\<And>n a. (n, a) \<in> set (array_slots c) \<Longrightarrow> f a = a"
  shows "map_array_slots f c = c"
proof -
  have "map_array_slots f c = map_array_slots (\<lambda>a. a) c"
    using assms by (rule map_array_slots_cong)
  also have "\<dots> = c"
  proof (cases "slots c")
    case None
    then show ?thesis by (cases c) (simp add: map_array_slots_def)
  next
    case (Some ss)
    have "map (\<lambda>(slotName, slot). case slot of SlotArray a \<Rightarrow> (slotName, SlotArray a)
                 | SlotOther v \<Rightarrow> (slotName, SlotOther v)) ss = ss"
      by (induction ss) (auto split: slot.splits)
    with Some show ?thesis by (cases c) (simp add: map_array_slots_def)
  qed
  finally show ?thesis .
qed

lemma filterSlot_eq:
  "filterSlot cs = map (map_array_slots filterSlot) (filter is_kept cs)"
proof -
  have "(case slots c of None \<Rightarrow> c
         | Some ss \<Rightarrow> Component (ctype c) (parameters c) (data c)
             (Some (map (\<lambda>(slotName, slot). case slot of
                       SlotArray a \<Rightarrow> (slotName, SlotArray (filterSlot a))
                     | SlotOther v \<Rightarrow> (slotName, slot)) ss)))
        = map_array_slots filterSlot c" for c
    by (cases c) (auto simp: map_array_slots_def split: option.splits slot.splits)
  then show ?thesis by (subst filterSlot.simps) simp
qed

lemma filterUnauthorizedComponents_eq:
  "filterUnauthorizedComponents c = map_array_slots filterSlot c"
  by (cases c) (auto simp: filterUnauthorizedComponents_def map_array_slots_def
      split: option.splits slot.splits)

lemma enhance_eq:
  "enhance ctx c = map_array_slots (map (enhance ctx)) (enhance_component ctx c)"
  by (subst enhance.simps)
    (auto simp: map_array_slots_def Let_def split: option.splits slot.splits)

lemma component_induct:
  assumes "\<And>c. (\<And>n a x. (n, a) \<in> set (array_slots c) \<Longrightarrow> x \<in> set a \<Longrightarrow> P x) \<Longrightarrow> P c"
  shows "P c"
proof (induction c rule: subnodes.induct)
  case (1 c)
  show ?case
  proof (rule assms)
    fix n a x
    assume "(n, a) \<in> set (array_slots c)" "x \<in> set a"
    then have "x \<in> set (children c)" by (force simp: children_def)
    then show "P x" by (rule 1)
  qed
qed

lemma component_list_induct:
  assumes "\<And>cs. (\<And>x n a. x \<in> set cs \<Longrightarrow> (n, a) \<in> set (array_slots x) \<Longrightarrow> P a) \<Longrightarrow> P cs"
  shows "P cs"
proof -
  have "\<forall>n a. (n, a) \<in> set (array_slots c) \<longrightarrow> P a" for c
  proof (induction c rule: component_induct)
    case (1 c)
    show ?case
    proof (intro allI impI)
      fix n a
      assume na: "(n, a) \<in> set (array_slots c)"
      show "P a"
      proof (rule assms)
        fix x m b
        assume "x \<in> set a" "(m, b) \<in> set (array_slots x)"
        with 1 na show "P b" by blast
      qed
    qed
  qed
  then show ?thesis using assms by blast
qed


section \<open>Facts about the filter\<close>

lemma is_kept_iff: "is_kept c \<longleftrightarrow> \<not> is_denied c"
  by (cases "opt_field (data c) ''_accessControl''")
    (auto simp: is_kept_def is_denied_def Let_def)

lemma is_kept_map_array_slots [simp]: "is_kept (map_array_slots f c) = is_kept c"
  by (simp add: is_kept_def)

lemma shallow_map_array_slots [simp]: "shallow (map_array_slots f c) = shallow c"
  by (cases "slots c")
    (auto simp: shallow_def map_array_slots_def split: slot.splits)

lemma filterSlot_idem: "filterSlot (filterSlot cs) = filterSlot cs"
proof (induction cs rule: component_list_induct)
  case (1 cs)
  have "filterSlot (filterSlot cs)
      = map (map_array_slots filterSlot)
          (filter is_kept (map (map_array_slots filterSlot) (filter is_kept cs)))"
    by (subst filterSlot_eq) (simp only: filterSlot_eq[of cs])
  also have "\<dots> = map (\<lambda>c. map_array_slots filterSlot (map_array_slots filterSlot c))
                     (filter is_kept cs)"
    by (simp add: filter_map comp_def)
  also have "\<dots> = map (map_array_slots filterSlot) (filter is_kept cs)"
  proof (rule map_cong[OF refl])
    fix x
    assume "x \<in> set (filter is_kept cs)"
    then have x: "x \<in> set cs" by simp
    show "map_array_slots filterSlot (map_array_slots filterSlot x) = map_array_slots filterSlot x"
      unfolding map_array_slots_comp
      by (rule map_array_slots_cong) (rule 1[OF x])
  qed
  also have "\<dots> = filterSlot cs" by (simp add: filterSlot_eq[symmetric])
  finally show ?case .
qed

lemma filterSlot_append: "filterSlot (xs @ ys) = filterSlot xs @ filterSlot ys"
  by (simp add: filterSlot_eq[of "xs @ ys"] filterSlot_eq[of xs] filterSlot_eq[of ys])

lemma filterSlot_Nil [simp]: "filterSlot [] = []"
  by (simp add: filterSlot_eq[of "[]"])

lemma filterSlot_Cons:
  "filterSlot (c # cs) = (if is_kept c then map_array_slots filterSlot c # filterSlot cs
                          else filterSlot cs)"
  by (simp add: filterSlot_eq[of "c # cs"] filterSlot_eq[of cs])

lemma concat_map_concat:
  "concat (map f (concat xss)) = concat (map (\<lambda>xs. concat (map f xs)) xss)"
  by (induction xss) simp_all

lemma subnodes_map_array_slots:
  "subnodes (map_array_slots f c)
     = map_array_slots f c # concat (map (\<lambda>(n, a). concat (map subnodes (f a))) (array_slots c))"
  by (subst subnodes.simps)
    (simp add: children_map_array_slots concat_map_concat comp_def case_prod_unfold)

lemma subnodes_filterSlot_kept:
  "\<forall>n \<in> set (concat (map subnodes (filterSlot cs))). is_kept n"
proof (induction cs rule: component_list_induct)
  case (1 cs)
  show ?case
  proof
    fix n
    assume "n \<in> set (concat (map subnodes (filterSlot cs)))"
    then obtain x where x: "x \<in> set cs" "is_kept x"
      and n: "n \<in> set (subnodes (map_array_slots filterSlot x))"
      by (subst (asm) filterSlot_eq) auto
    from n consider "n = map_array_slots filterSlot x"
      | m a where "(m, a) \<in> set (array_slots x)" "n \<in> set (concat (map subnodes (filterSlot a)))"
      by (subst (asm) subnodes_map_array_slots) auto
    then show "is_kept n"
    proof cases
      case 1
      with x show ?thesis by simp
    next
      case 2
      with "1.IH"[OF x(1) 2(1)] show ?thesis by blast
    qed
  qed
qed

lemma visible_eq:
  "visible c = c # concat (map (\<lambda>(n, a). concat (map visible (filter (\<lambda>x. \<not> is_denied x) a)))
                         (array_slots c))"
  by (subst visible.simps)
    (simp add: children_def filter_concat concat_map_concat comp_def case_prod_unfold)

lemma shallow_subnodes_filterSlot:
  "map shallow (concat (map subnodes (filterSlot cs)))
     = map shallow (concat (map visible (filter (\<lambda>x. \<not> is_denied x) cs)))"
proof (induction cs rule: component_list_induct)
  case (1 cs)
  have "map shallow (subnodes (map_array_slots filterSlot x)) = map shallow (visible x)"
    if x: "x \<in> set cs" for x
  proof -
    have "map shallow (concat (map subnodes (filterSlot (snd e))))
        = map shallow (concat (map visible (filter (\<lambda>x. \<not> is_denied x) (snd e))))"
      if "e \<in> set (array_slots x)" for e
      using "1.IH"[OF x, of "fst e" "snd e"] that by simp
    then show ?thesis
      by (simp add: subnodes_map_array_slots visible_eq[of x] map_concat comp_def
          case_prod_unfold cong: map_cong)
  qed
  note step = this
  have "filterSlot cs = map (map_array_slots filterSlot) (filter (\<lambda>x. \<not> is_denied x) cs)"
    by (subst filterSlot_eq) (simp add: is_kept_iff[abs_def])
  then have "map shallow (concat (map subnodes (filterSlot cs)))
      = concat (map (\<lambda>x. map shallow (subnodes (map_array_slots filterSlot x)))
          (filter (\<lambda>x. \<not> is_denied x) cs))"
    by (simp add: map_concat comp_def)
  also have "\<dots> = concat (map (\<lambda>x. map shallow (visible x)) (filter (\<lambda>x. \<not> is_denied x) cs))"
    by (rule arg_cong[where f = concat], rule map_cong[OF refl]) (simp add: step)
  also have "\<dots> = map shallow (concat (map visible (filter (\<lambda>x. \<not> is_denied x) cs)))"
    by (simp add: map_concat comp_def)
  finally show ?case .
qed


section \<open>Facts about the enhancement pass\<close>

lemma set_data_sel [simp]:
  "ctype (set_data k v c) = ctype c"
  "parameters (set_data k v c) = parameters c"
  "slots (set_data k v c) = slots c"
  by (simp_all add: set_data_def)

lemma opt_field_set_data:
  "opt_field (data (set_data k v c)) k' = (if k' = k then v else opt_field (data c) k')"
  by (cases "data c") (simp_all add: set_data_def opt_field_def update_conv')

lemma enhance_component_sel [simp]:
  "ctype (enhance_component ctx c) = ctype c"
  "parameters (enhance_component ctx c) = parameters c"
  "slots (enhance_component ctx c) = slots c"
  by (simp_all add: enhance_component_def)

lemma array_slots_enhance_component [simp]:
  "array_slots (enhance_component ctx c) = array_slots c"
  by (simp add: array_slots_def)

lemma accessType_of_enhance_component [simp]:
  "accessType_of (enhance_component ctx c) = accessType_of c"
  by (simp add: accessType_of_def)

lemma accessControl_enhancer_set_data [simp]:
  "accessControl_enhancer (set_data k v c) ctx = accessControl_enhancer c ctx"
  by (simp add: accessControl_enhancer_def accessType_of_def)

lemma accessControl_enhancer_enhance_component [simp]:
  "accessControl_enhancer (enhance_component ctx' c) ctx = accessControl_enhancer c ctx"
  by (simp add: accessControl_enhancer_def)

lemma authState_of_enhance_component:
  "opt_field (data (enhance_component ctx c)) ''_authState'' = authState_enhancer ctx"
  by (simp add: enhance_component_def opt_field_set_data)

lemma accessControl_of_enhance_component:
  "opt_field (data (enhance_component ctx c)) ''_accessControl'' = accessControl_enhancer c ctx"
  by (simp add: enhance_component_def opt_field_set_data)

lemma update_update_twice:
  assumes "k \<noteq> k'"
  shows "AList.update k' v' (AList.update k v (AList.update k' v' (AList.update k v al)))
       = AList.update k' v' (AList.update k v al)"
proof -
  let ?al = "AList.update k' v' (AList.update k v al)"
  have "map_of ?al k = Some v" using assms by (simp add: update_conv')
  then have "AList.update k v ?al = ?al" by (rule update_triv)
  moreover have "map_of ?al k' = Some v'" by (simp add: update_conv')
  then have "AList.update k' v' ?al = ?al" by (rule update_triv)
  ultimately show ?thesis by simp
qed

lemma enhance_component_idem:
  "enhance_component ctx (enhance_component ctx c) = enhance_component ctx c"
proof -
  have "set_data ''_accessControl'' v' (set_data ''_authState'' v
          (set_data ''_accessControl'' v' (set_data ''_authState'' v c)))
      = set_data ''_accessControl'' v' (set_data ''_authState'' v c)" for v v'
    by (simp add: set_data_def update_update_twice)
  then show ?thesis
    by (subst enhance_component_def) (simp add: enhance_component_def[of ctx c])
qed

lemma enhance_component_map_array_slots:
  "enhance_component ctx (map_array_slots f c) = map_array_slots f (enhance_component ctx c)"
  by (simp add: enhance_component_def set_data_def map_array_slots_def
      accessControl_enhancer_def accessType_of_def)

lemma enhance_sel [simp]:
  "ctype (enhance ctx c) = ctype c"
  "parameters (enhance ctx c) = parameters c"
  "data (enhance ctx c) = data (enhance_component ctx c)"
  by (simp_all add: enhance_eq)

lemma array_slots_enhance:
  "array_slots (enhance ctx c) = map (\<lambda>(n, a). (n, map (enhance ctx) a)) (array_slots c)"
  by (simp add: enhance_eq array_slots_map_array_slots)

lemma enhance_idem: "enhance ctx (enhance ctx c) = enhance ctx c"
proof (induction c rule: component_induct)
  case (1 c)
  have "enhance ctx (enhance ctx c)
      = map_array_slots (map (enhance ctx))
          (enhance_component ctx (map_array_slots (map (enhance ctx)) (enhance_component ctx c)))"
    by (subst enhance_eq) (simp only: enhance_eq[of ctx c])
  also have "\<dots> = map_array_slots (\<lambda>a. map (enhance ctx) (map (enhance ctx) a))
                     (enhance_component ctx c)"
    by (simp add: enhance_component_map_array_slots enhance_component_idem map_array_slots_comp)
  also have "\<dots> = map_array_slots (map (enhance ctx)) (enhance_component ctx c)"
  proof (rule map_array_slots_cong)
    fix n a
    assume "(n, a) \<in> set (array_slots (enhance_component ctx c))"
    then have "(n, a) \<in> set (array_slots c)" by simp
    then show "map (enhance ctx) (map (enhance ctx) a) = map (enhance ctx) a"
      using 1 by simp
  qed
  also have "\<dots> = enhance ctx c" by (simp add: enhance_eq[symmetric])
  finally show ?case .
qed

lemma children_enhance: "children (enhance ctx c) = map (enhance ctx) (children c)"
proof -
  have "concat (map snd (map (\<lambda>(n, a). (n, map (enhance ctx) a)) xs))
      = map (enhance ctx) (concat (map snd xs))" for xs :: "(string \<times> component list) list"
    by (induction xs) auto
  then show ?thesis by (simp add: children_def array_slots_enhance)
qed

lemma subnodes_enhance: "subnodes (enhance ctx c) = map (enhance ctx) (subnodes c)"
proof (induction c rule: subnodes.induct)
  case (1 c)
  have "map (\<lambda>x. subnodes (enhance ctx x)) (children c)
      = map (\<lambda>x. map (enhance ctx) (subnodes x)) (children c)"
    by (rule map_cong[OF refl]) (rule 1)
  then have eq: "concat (map (\<lambda>x. subnodes (enhance ctx x)) (children c))
      = concat (map (\<lambda>x. map (enhance ctx) (subnodes x)) (children c))"
    by (rule arg_cong)
  have "subnodes (enhance ctx c)
      = enhance ctx c # concat (map (\<lambda>x. subnodes (enhance ctx x)) (children c))"
    by (subst subnodes.simps) (simp add: children_enhance comp_def)
  also have "\<dots> = enhance ctx c # concat (map (\<lambda>x. map (enhance ctx) (subnodes x)) (children c))"
    by (simp only: eq)
  also have "\<dots> = map (enhance ctx) (subnodes c)"
    by (subst subnodes.simps[of c]) (simp add: map_concat comp_def)
  finally show ?case .
qed


section \<open>The filter removes denied nodes with their subtrees\<close>

lemma descendants_map_array_slots:
  "descendants (map_array_slots f c)
     = concat (map (\<lambda>(n, a). concat (map subnodes (f a))) (array_slots c))"
  by (simp add: descendants_def children_map_array_slots concat_map_concat comp_def
      case_prod_unfold)

lemma visible_children:
  "concat (map visible (filter P (children c)))
     = concat (map (\<lambda>(n, a). concat (map visible (filter P a))) (array_slots c))"
  by (simp add: children_def filter_concat concat_map_concat comp_def case_prod_unfold)

lemma shallow_descendants_filter:
  "map shallow (descendants (filterUnauthorizedComponents root))
     = map shallow (concat (map visible (filter (\<lambda>x. \<not> is_denied x) (children root))))"
proof -
  have "map (\<lambda>e. map shallow (concat (map subnodes (filterSlot (snd e))))) (array_slots root)
      = map (\<lambda>e. map shallow (concat (map visible (filter (\<lambda>x. \<not> is_denied x) (snd e)))))
          (array_slots root)"
    by (simp add: shallow_subnodes_filterSlot)
  then have "concat (map (\<lambda>e. map shallow (concat (map subnodes (filterSlot (snd e))))) (array_slots root))
      = concat (map (\<lambda>e. map shallow (concat (map visible (filter (\<lambda>x. \<not> is_denied x) (snd e)))))
          (array_slots root))"
    by (rule arg_cong)
  then show ?thesis
    unfolding filterUnauthorizedComponents_eq descendants_map_array_slots visible_children
      map_concat map_map comp_def case_prod_unfold .
qed

lemma descendants_filter_not_denied:
  "\<forall>n \<in> set (descendants (filterUnauthorizedComponents root)). \<not> is_denied n"
proof
  fix n
  assume "n \<in> set (descendants (filterUnauthorizedComponents root))"
  then obtain m a where "n \<in> set (concat (map subnodes (filterSlot a)))"
    by (auto simp: filterUnauthorizedComponents_eq descendants_map_array_slots)
  with subnodes_filterSlot_kept[of a] show "\<not> is_denied n"
    by (auto simp: is_kept_iff)
qed

text \<open>
  C2: a node whose \<^verbatim>\<open>_accessControl.allowed\<close> is \<^verbatim>\<open>false\<close> is removed from its slot
  with everything below it: the filtered slot is the one obtained without the node.  A
  node that is kept stays at its place among the kept nodes of its slot, and each of its
  array slots is filtered by the same rule.  In the result no node below the root is
  denied, and the nodes below the root are, in document order, exactly the nodes of the
  input that are reached from the root through nodes that are not denied: no descendant of
  a denied node, whatever its own \<^verbatim>\<open>allowed\<close>.
\<close>

theorem C2_denied_nodes_removed_with_subtree:
  "(is_denied d \<longrightarrow> filterSlot (xs @ d # ys) = filterSlot xs @ filterSlot ys)
   \<and> (\<not> is_denied k \<longrightarrow>
        filterSlot (us @ k # vs) = filterSlot us @ map_array_slots filterSlot k # filterSlot vs)
   \<and> array_slots (map_array_slots filterSlot k) = map (\<lambda>(n, a). (n, filterSlot a)) (array_slots k)
   \<and> (\<forall>n \<in> set (descendants (filterUnauthorizedComponents root)). \<not> is_denied n)
   \<and> map shallow (descendants (filterUnauthorizedComponents root))
       = map shallow (concat (map visible (filter (\<lambda>x. \<not> is_denied x) (children root))))"
proof (intro conjI impI)
  assume "is_denied d"
  then show "filterSlot (xs @ d # ys) = filterSlot xs @ filterSlot ys"
    by (simp add: filterSlot_append filterSlot_Cons is_kept_iff)
next
  assume "\<not> is_denied k"
  then show "filterSlot (us @ k # vs)
      = filterSlot us @ map_array_slots filterSlot k # filterSlot vs"
    by (simp add: filterSlot_append filterSlot_Cons is_kept_iff)
next
  show "array_slots (map_array_slots filterSlot k)
      = map (\<lambda>(n, a). (n, filterSlot a)) (array_slots k)"
    by (rule array_slots_map_array_slots)
next
  show "\<forall>n \<in> set (descendants (filterUnauthorizedComponents root)). \<not> is_denied n"
    by (rule descendants_filter_not_denied)
next
  show "map shallow (descendants (filterUnauthorizedComponents root))
      = map shallow (concat (map visible (filter (\<lambda>x. \<not> is_denied x) (children root))))"
    by (rule shallow_descendants_filter)
qed

lemmas eval_simps =
  is_denied_def is_kept_def opt_field_def annotated_def AccessControlResult_def
  map_array_slots_def filterSlot_Cons array_slots_def children_def descendants_def
  filterUnauthorizedComponents_eq shallow_def Let_def

theorem C2_witness:
  "is_denied (annotated ''B'' False [annotated ''B1'' True []])
   \<and> \<not> is_denied (annotated ''A'' True [])
   \<and> filterSlot ([annotated ''A'' True []] @ annotated ''B'' False [annotated ''B1'' True []]
                   # [annotated ''C'' True []])
       = [annotated ''A'' True [], annotated ''C'' True []]
   \<and> filterSlot ([] @ annotated ''A'' True [annotated ''B'' False [annotated ''B1'' True []]] # [])
       = [annotated ''A'' True []]
   \<and> map ctype (descendants (filterUnauthorizedComponents
         (annotated ''R'' False
            [annotated ''A'' True [], annotated ''B'' False [annotated ''B1'' True []],
             annotated ''C'' True [annotated ''C1'' False [], annotated ''C2'' True []]])))
       = [''A'', ''C'', ''C2'']"
  using C2_denied_nodes_removed_with_subtree
    [of "annotated ''B'' False [annotated ''B1'' True []]" "[annotated ''A'' True []]"
        "[annotated ''C'' True []]" "annotated ''A'' True [annotated ''B'' False [annotated ''B1'' True []]]"
        "[]" "[]"
        "annotated ''R'' False
            [annotated ''A'' True [], annotated ''B'' False [annotated ''B1'' True []],
             annotated ''C'' True [annotated ''C1'' False [], annotated ''C2'' True []]]"]
  by (simp add: eval_simps subnodes.simps visible.simps)


section \<open>What the filter keeps, idempotence and frame\<close>

lemma subnodes_eq_descendants: "subnodes c = c # descendants c"
  by (subst subnodes.simps) (simp add: descendants_def)

lemma self_in_subnodes: "c \<in> set (subnodes c)"
  by (simp add: subnodes_eq_descendants)

lemma children_subset_descendants: "set (children c) \<subseteq> set (descendants c)"
  using self_in_subnodes by (auto simp: descendants_def)

lemma children_of_subnode_in_descendants:
  "n \<in> set (subnodes r) \<Longrightarrow> x \<in> set (children n) \<Longrightarrow> x \<in> set (descendants r)"
proof (induction r rule: subnodes.induct)
  case (1 r)
  from "1.prems"(1) consider "n = r" | y where "y \<in> set (children r)" "n \<in> set (subnodes y)"
    by (auto simp: subnodes_eq_descendants[of r] descendants_def)
  then show ?case
  proof cases
    case 1
    with "1.prems"(2) show ?thesis using children_subset_descendants by blast
  next
    case 2
    from "1.IH"[OF 2 "1.prems"(2)] have "x \<in> set (subnodes y)"
      by (simp add: subnodes_eq_descendants[of y])
    with 2(1) show ?thesis by (auto simp: descendants_def)
  qed
qed

lemma visible_subset_subnodes: "set (visible c) \<subseteq> set (subnodes c)"
proof (induction c rule: subnodes.induct)
  case (1 c)
  have "set (visible c) = insert c (\<Union>x \<in> {x \<in> set (children c). \<not> is_denied x}. set (visible x))"
    by (subst visible.simps) auto
  also have "\<dots> \<subseteq> insert c (\<Union>x \<in> set (children c). set (subnodes x))"
    using 1 by blast
  also have "\<dots> = set (subnodes c)"
    by (subst subnodes.simps[of c]) auto
  finally show ?case .
qed

text \<open>
  C6: in every slot at every level the filter keeps exactly the children whose
  \<^verbatim>\<open>_accessControl.allowed !== false\<close>: a slot array is replaced by the sub-list of
  these children, in which every array slot of every kept child is filtered in the same
  way; a child without \<^verbatim>\<open>_accessControl\<close> is kept, and its own slots are filtered; the
  root's array slots are filtered so; and in the result no child of any node has
  \<^verbatim>\<open>allowed\<close> equal to \<^verbatim>\<open>false\<close>.
\<close>

theorem C6_filter_keeps_unless_allowed_false:
  "filterSlot cs
     = map (map_array_slots filterSlot)
         (filter (\<lambda>c. field (opt_field (data c) ''_accessControl'') ''allowed'' \<noteq> JBool False) cs)
   \<and> (opt_field (data c) ''_accessControl'' = JUndefined \<longrightarrow>
        filterSlot (xs @ c # ys) = filterSlot xs @ map_array_slots filterSlot c # filterSlot ys)
   \<and> array_slots (map_array_slots filterSlot c) = map (\<lambda>(n, a). (n, filterSlot a)) (array_slots c)
   \<and> filterUnauthorizedComponents root = map_array_slots filterSlot root
   \<and> (\<forall>n \<in> set (subnodes (filterUnauthorizedComponents root)). \<forall>x \<in> set (children n).
         field (opt_field (data x) ''_accessControl'') ''allowed'' \<noteq> JBool False)"
proof (intro conjI impI ballI)
  have "is_kept = (\<lambda>c. field (opt_field (data c) ''_accessControl'') ''allowed'' \<noteq> JBool False)"
    by (rule ext) (simp add: is_kept_iff is_denied_def)
  then show "filterSlot cs
     = map (map_array_slots filterSlot)
         (filter (\<lambda>c. field (opt_field (data c) ''_accessControl'') ''allowed'' \<noteq> JBool False) cs)"
    using filterSlot_eq[of cs] by simp
next
  assume "opt_field (data c) ''_accessControl'' = JUndefined"
  then have "is_kept c" by (simp add: is_kept_def)
  then show "filterSlot (xs @ c # ys)
      = filterSlot xs @ map_array_slots filterSlot c # filterSlot ys"
    by (simp add: filterSlot_append filterSlot_Cons)
next
  show "array_slots (map_array_slots filterSlot c)
      = map (\<lambda>(n, a). (n, filterSlot a)) (array_slots c)"
    by (rule array_slots_map_array_slots)
next
  show "filterUnauthorizedComponents root = map_array_slots filterSlot root"
    by (rule filterUnauthorizedComponents_eq)
next
  fix n x
  assume "n \<in> set (subnodes (filterUnauthorizedComponents root))" "x \<in> set (children n)"
  then have "x \<in> set (descendants (filterUnauthorizedComponents root))"
    by (rule children_of_subnode_in_descendants)
  with descendants_filter_not_denied[of root]
  show "field (opt_field (data x) ''_accessControl'') ''allowed'' \<noteq> JBool False"
    by (auto simp: is_denied_def)
qed

theorem C6_witness:
  "opt_field (data (Component ''plain'' None None
       (Some [(''content'', SlotArray [annotated ''X'' False []])]))) ''_accessControl'' = JUndefined
   \<and> filterSlot ([annotated ''A'' False []]
        @ Component ''plain'' None None (Some [(''content'', SlotArray [annotated ''X'' False []])])
        # [annotated ''B'' True []])
      = [Component ''plain'' None None (Some [(''content'', SlotArray [])]), annotated ''B'' True []]
   \<and> filterSlot [annotated ''A'' True [], annotated ''B'' False [], annotated ''C'' True []]
      = [annotated ''A'' True [], annotated ''C'' True []]"
  using C6_filter_keeps_unless_allowed_false
    [of "[annotated ''A'' True [], annotated ''B'' False [], annotated ''C'' True []]"
        "Component ''plain'' None None (Some [(''content'', SlotArray [annotated ''X'' False []])])"
        "[annotated ''A'' False []]" "[annotated ''B'' True []]"]
  by (simp add: eval_simps)

text \<open>
  C8: filtering a second time changes nothing, for the root and for every slot array; the
  nodes that survive a pass keep their data, \<^verbatim>\<open>_accessControl\<close> included, so the
  second pass decides as the first.
\<close>

theorem C8_filter_idempotent:
  "filterUnauthorizedComponents (filterUnauthorizedComponents root)
     = filterUnauthorizedComponents root
   \<and> filterSlot (filterSlot cs) = filterSlot cs
   \<and> map data (filterSlot cs) = map data (filter is_kept cs)
   \<and> filter is_kept (filterSlot cs) = filterSlot cs"
proof (intro conjI)
  have "filterUnauthorizedComponents (filterUnauthorizedComponents root)
      = map_array_slots (\<lambda>a. filterSlot (filterSlot a)) root"
    by (simp add: filterUnauthorizedComponents_eq map_array_slots_comp)
  then show "filterUnauthorizedComponents (filterUnauthorizedComponents root)
      = filterUnauthorizedComponents root"
    by (simp add: filterSlot_idem filterUnauthorizedComponents_eq)
next
  show "filterSlot (filterSlot cs) = filterSlot cs" by (rule filterSlot_idem)
next
  show "map data (filterSlot cs) = map data (filter is_kept cs)"
    by (simp add: filterSlot_eq[of cs])
next
  show "filter is_kept (filterSlot cs) = filterSlot cs"
    by (simp add: filterSlot_eq[of cs] filter_map comp_def)
qed

theorem C8_witness:
  "filterUnauthorizedComponents
     (annotated ''R'' True [annotated ''A'' True [annotated ''A1'' False []], annotated ''B'' False []])
     = annotated ''R'' True [annotated ''A'' True []]
   \<and> filterUnauthorizedComponents (filterUnauthorizedComponents
     (annotated ''R'' True [annotated ''A'' True [annotated ''A1'' False []], annotated ''B'' False []]))
     = annotated ''R'' True [annotated ''A'' True []]"
  using C8_filter_idempotent
    [of "annotated ''R'' True [annotated ''A'' True [annotated ''A1'' False []], annotated ''B'' False []]"
        "[]"]
  by (simp add: eval_simps)

text \<open>
  C10: the root is never removed and nothing of it changes but the contents of its array
  slots, whatever its own \<^verbatim>\<open>_accessControl\<close> says; the same holds for the nodes kept
  in a slot, and every node of the result has the type, parameters, data, slot names and
  non-array slots of a node of the input.
\<close>

theorem C10_root_kept_and_fields_unchanged:
  "shallow (filterUnauthorizedComponents root) = shallow root
   \<and> map fst (array_slots (filterUnauthorizedComponents root)) = map fst (array_slots root)
   \<and> map shallow (filterSlot cs) = map shallow (filter is_kept cs)
   \<and> (\<forall>n' \<in> set (subnodes (filterUnauthorizedComponents root)).
         \<exists>n \<in> set (subnodes root). shallow n' = shallow n)"
proof (intro conjI ballI)
  show "shallow (filterUnauthorizedComponents root) = shallow root"
    by (simp add: filterUnauthorizedComponents_eq)
next
  show "map fst (array_slots (filterUnauthorizedComponents root)) = map fst (array_slots root)"
    by (simp add: filterUnauthorizedComponents_eq array_slots_map_array_slots comp_def
        case_prod_unfold)
next
  show "map shallow (filterSlot cs) = map shallow (filter is_kept cs)"
    by (simp add: filterSlot_eq[of cs] comp_def)
next
  fix n'
  assume "n' \<in> set (subnodes (filterUnauthorizedComponents root))"
  then consider "n' = filterUnauthorizedComponents root"
    | "n' \<in> set (descendants (filterUnauthorizedComponents root))"
    by (auto simp: subnodes_eq_descendants)
  then show "\<exists>n \<in> set (subnodes root). shallow n' = shallow n"
  proof cases
    case 1
    then have "shallow n' = shallow root" by (simp add: filterUnauthorizedComponents_eq)
    with self_in_subnodes[of root] show ?thesis by blast
  next
    case 2
    then have "shallow n' \<in> set (map shallow (descendants (filterUnauthorizedComponents root)))"
      by simp
    then have "shallow n' \<in> shallow `
        set (concat (map visible (filter (\<lambda>x. \<not> is_denied x) (children root))))"
      by (simp only: shallow_descendants_filter set_map)
    then obtain n y where y: "y \<in> set (children root)" and n: "n \<in> set (visible y)"
      and eq: "shallow n' = shallow n"
      by auto
    from n visible_subset_subnodes have "n \<in> set (subnodes y)" by blast
    with y have "n \<in> set (subnodes root)"
      by (auto simp: subnodes_eq_descendants[of root] descendants_def)
    with eq show ?thesis by blast
  qed
qed

theorem C10_witness:
  "is_denied (annotated ''R'' False [annotated ''A'' True [], annotated ''B'' False []])
   \<and> filterUnauthorizedComponents (annotated ''R'' False [annotated ''A'' True [], annotated ''B'' False []])
      = annotated ''R'' False [annotated ''A'' True []]
   \<and> shallow (filterUnauthorizedComponents
        (annotated ''R'' False [annotated ''A'' True [], annotated ''B'' False []]))
      = shallow (annotated ''R'' False [annotated ''A'' True [], annotated ''B'' False []])"
  using C10_root_kept_and_fields_unchanged
    [of "annotated ''R'' False [annotated ''A'' True [], annotated ''B'' False []]" "[]"]
  by (simp add: eval_simps)


section \<open>The authentication snapshot\<close>

lemma node_of_enhanced_tree:
  assumes "n \<in> set (subnodes (enhance ctx root))"
  obtains m where "m \<in> set (subnodes root)" "n = enhance ctx m"
  using assms by (auto simp: subnodes_enhance)

lemma authState_of_enhance:
  "opt_field (data (enhance ctx c)) ''_authState'' = authState_enhancer ctx"
  by (simp add: authState_of_enhance_component)

lemma accessControl_of_enhance:
  "opt_field (data (enhance ctx c)) ''_accessControl'' = accessControl_enhancer c ctx"
  by (simp add: accessControl_of_enhance_component)

lemma accessType_of_enhance [simp]: "accessType_of (enhance ctx c) = accessType_of c"
  by (simp add: accessType_of_def)

lemma node_shape_enhance [simp]: "node_shape (enhance ctx c) = node_shape c"
  by (simp add: node_shape_def array_slots_enhance comp_def case_prod_unfold)

lemma nullish_field: "nullish v \<Longrightarrow> field v k = JUndefined"
  by (auto simp: nullish_def)

lemma truthy_field_not_nullish: "truthy (field v k) \<Longrightarrow> \<not> nullish v"
  by (auto simp: nullish_def)

lemma truthy_not_nullish: "truthy v \<Longrightarrow> \<not> nullish v"
  by (auto simp: nullish_def)

lemma authState_on_every_node:
  assumes "n \<in> set (subnodes (enhance ctx root))"
  shows "opt_field (data n) ''_authState''
       = JObj [(''isAuthenticated'', JBool (truthy (field (session ctx) ''user''))),
               (''user'', if truthy (field (session ctx) ''user'')
                          then field (session ctx) ''user'' else JNull)]"
proof -
  from assms obtain m where n: "n = enhance ctx m" by (rule node_of_enhanced_tree)
  show ?thesis
    unfolding n authState_of_enhance by (simp add: authState_enhancer_def js_or_def)
qed

lemma authState_enhancer_eq_spec:
  assumes "Session_or_null sess"
  shows "JObj [(''isAuthenticated'', JBool (truthy (field sess ''user''))),
               (''user'', if truthy (field sess ''user'') then field sess ''user'' else JNull)]
       = spec_authState sess"
proof (cases "nullish sess")
  case True
  then have "field sess ''user'' = JUndefined" by (rule nullish_field)
  with True show ?thesis by (simp add: spec_authState_def) (simp add: nullish_def)
next
  case False
  with assms have "truthy (field sess ''user'')" by (simp add: Session_or_null_def)
  with False show ?thesis by (simp add: spec_authState_def truthy_not_nullish)
qed

text \<open>
  C3: after one enhancement pass with a fixed context, every node of the tree carries the
  same \<^verbatim>\<open>_authState\<close>, and it is
  \<^verbatim>\<open>{ isAuthenticated: session != null, user: session?.user ?? null }\<close>: on every node
  \<^verbatim>\<open>isAuthenticated\<close> is true exactly when the session is not null.  The session is one
  the enhancer receives: null, or a session with its user.
\<close>

theorem C3_authState_same_on_every_node:
  assumes "Session_or_null (session ctx)"
  shows "\<forall>n \<in> set (subnodes (enhance ctx root)).
     opt_field (data n) ''_authState'' = spec_authState (session ctx)
     \<and> opt_field (data n) ''_authState''
         = JObj [(''isAuthenticated'', JBool (\<not> nullish (session ctx))),
                 (''user'', if nullish (field (session ctx) ''user'') then JNull
                            else field (session ctx) ''user'')]
     \<and> field (opt_field (data n) ''_authState'') ''isAuthenticated''
         = JBool (\<not> nullish (session ctx))"
proof
  fix n
  assume "n \<in> set (subnodes (enhance ctx root))"
  then have "opt_field (data n) ''_authState'' = spec_authState (session ctx)"
    using authState_enhancer_eq_spec[OF assms] by (simp add: authState_on_every_node)
  then show "opt_field (data n) ''_authState'' = spec_authState (session ctx)
     \<and> opt_field (data n) ''_authState''
         = JObj [(''isAuthenticated'', JBool (\<not> nullish (session ctx))),
                 (''user'', if nullish (field (session ctx) ''user'') then JNull
                            else field (session ctx) ''user'')]
     \<and> field (opt_field (data n) ''_authState'') ''isAuthenticated''
         = JBool (\<not> nullish (session ctx))"
    by (simp add: spec_authState_def)
qed

theorem C3_witness:
  "Session_or_null (session (visitor alice_session))
   \<and> Session_or_null (session (visitor JNull))
   \<and> opt_field (data (enhance (visitor alice_session) scenario_users)) ''_authState''
     = JObj [(''isAuthenticated'', JBool True), (''user'', JObj [(''name'', JStr ''alice'')])]
   \<and> opt_field (data (enhance (visitor alice_session) (leaf ''NodeX'' ''users''))) ''_authState''
     = JObj [(''isAuthenticated'', JBool True), (''user'', JObj [(''name'', JStr ''alice'')])]
   \<and> opt_field (data (enhance (visitor JNull) scenario_users)) ''_authState''
     = JObj [(''isAuthenticated'', JBool False), (''user'', JNull)]
   \<and> opt_field (data (enhance (visitor JNull) (leaf ''NodeX'' ''users''))) ''_authState''
     = JObj [(''isAuthenticated'', JBool False), (''user'', JNull)]"
proof -
  have alice: "Session_or_null (session (visitor alice_session))"
    by (simp add: Session_or_null_def visitor_def alice_session_def nullish_def)
  have null: "Session_or_null (session (visitor JNull))"
    by (simp add: Session_or_null_def visitor_def nullish_def)
  have root: "enhance ctx scenario_users \<in> set (subnodes (enhance ctx scenario_users))" for ctx
    by (rule self_in_subnodes)
  have "leaf ''NodeX'' ''users'' \<in> set (subnodes scenario_users)"
    by (simp add: scenario_users_def leaf_def subnodes.simps children_def array_slots_def)
  then have node: "enhance ctx (leaf ''NodeX'' ''users'')
      \<in> set (subnodes (enhance ctx scenario_users))" for ctx
    by (simp only: subnodes_enhance set_map image_eqI)
  have a: "spec_authState (session (visitor alice_session))
      = JObj [(''isAuthenticated'', JBool True), (''user'', JObj [(''name'', JStr ''alice'')])]"
    by (simp add: spec_authState_def visitor_def alice_session_def nullish_def)
  have b: "spec_authState (session (visitor JNull))
      = JObj [(''isAuthenticated'', JBool False), (''user'', JNull)]"
    by (simp add: spec_authState_def visitor_def nullish_def)
  from bspec[OF C3_authState_same_on_every_node[OF alice] root, THEN conjunct1]
       bspec[OF C3_authState_same_on_every_node[OF alice] node, THEN conjunct1]
       bspec[OF C3_authState_same_on_every_node[OF null] root, THEN conjunct1]
       bspec[OF C3_authState_same_on_every_node[OF null] node, THEN conjunct1]
  show ?thesis
    unfolding a b using alice null by (intro conjI)
qed


section \<open>Access decisions, editor bypass and idempotence of the enhancer\<close>

text \<open>
  C4: with editor bypass off, on every node of the enhanced tree
  \<^verbatim>\<open>_authState.isAuthenticated\<close> is \<^verbatim>\<open>!!session?.user\<close>; a node whose \<^verbatim>\<open>accessType\<close> is
  \<^verbatim>\<open>'users'\<close> gets \<^verbatim>\<open>_accessControl.allowed\<close> equal to it, and a node whose \<^verbatim>\<open>accessType\<close>
  is \<^verbatim>\<open>'anonymous'\<close> gets its negation, whatever the session is.
\<close>

theorem C4_users_and_anonymous_follow_isAuthenticated:
  assumes "\<not> isCanvasMode ctx"
  shows "\<forall>n \<in> set (subnodes (enhance ctx root)).
     field (opt_field (data n) ''_authState'') ''isAuthenticated''
       = JBool (truthy (field (session ctx) ''user''))
     \<and> (accessType_of n = JStr ''users'' \<longrightarrow>
          field (opt_field (data n) ''_accessControl'') ''allowed''
            = field (opt_field (data n) ''_authState'') ''isAuthenticated'')
     \<and> (accessType_of n = JStr ''anonymous'' \<longrightarrow>
          field (opt_field (data n) ''_accessControl'') ''allowed''
            = JBool (\<not> truthy (field (opt_field (data n) ''_authState'') ''isAuthenticated'')))"
proof
  fix n
  assume "n \<in> set (subnodes (enhance ctx root))"
  then obtain m where n: "n = enhance ctx m" by (rule node_of_enhanced_tree)
  have auth: "field (opt_field (data n) ''_authState'') ''isAuthenticated''
      = JBool (truthy (field (session ctx) ''user''))"
    unfolding n authState_of_enhance by (simp add: authState_enhancer_def)
  have users: "field (opt_field (data n) ''_accessControl'') ''allowed''
      = JBool (truthy (field (session ctx) ''user''))"
    if "accessType_of n = JStr ''users''"
    using that assms unfolding n accessControl_of_enhance
    by (simp add: accessControl_enhancer_def AccessControlResult_def Let_def)
  have anon: "field (opt_field (data n) ''_accessControl'') ''allowed''
      = JBool (\<not> truthy (field (session ctx) ''user''))"
    if "accessType_of n = JStr ''anonymous''"
    using that assms unfolding n accessControl_of_enhance
    by (simp add: accessControl_enhancer_def AccessControlResult_def Let_def)
  from auth users anon
  show "field (opt_field (data n) ''_authState'') ''isAuthenticated''
       = JBool (truthy (field (session ctx) ''user''))
     \<and> (accessType_of n = JStr ''users'' \<longrightarrow>
          field (opt_field (data n) ''_accessControl'') ''allowed''
            = field (opt_field (data n) ''_authState'') ''isAuthenticated'')
     \<and> (accessType_of n = JStr ''anonymous'' \<longrightarrow>
          field (opt_field (data n) ''_accessControl'') ''allowed''
            = JBool (\<not> truthy (field (opt_field (data n) ''_authState'') ''isAuthenticated'')))"
    by simp
qed

lemma leaf_in_scenario_users: "leaf ''NodeX'' ''users'' \<in> set (subnodes scenario_users)"
  by (simp add: scenario_users_def leaf_def subnodes.simps children_def array_slots_def)

lemma enhanced_leaf_in_scenario_users:
  "enhance ctx (leaf ''NodeX'' ''users'') \<in> set (subnodes (enhance ctx scenario_users))"
  using leaf_in_scenario_users by (simp only: subnodes_enhance set_map image_eqI)

lemma accessType_of_leaf [simp]: "accessType_of (leaf t s) = JStr s"
  by (simp add: accessType_of_def leaf_def accessType_parameter_def opt_field_def)

theorem C4_witness:
  "\<not> isCanvasMode (visitor JNull)
   \<and> field (opt_field (data (enhance (visitor JNull) (leaf ''NodeX'' ''users''))) ''_accessControl'')
        ''allowed'' = JBool False
   \<and> field (opt_field (data (enhance (visitor alice_session) (leaf ''NodeX'' ''users''))) ''_accessControl'')
        ''allowed'' = JBool True"
proof -
  have 1: "\<not> isCanvasMode (visitor s)" for s by (simp add: visitor_def)
  from bspec[OF C4_users_and_anonymous_follow_isAuthenticated[OF 1] enhanced_leaf_in_scenario_users,
         of JNull]
       bspec[OF C4_users_and_anonymous_follow_isAuthenticated[OF 1] enhanced_leaf_in_scenario_users,
         of alice_session]
  show ?thesis
    by (simp add: visitor_def alice_session_def)
qed

text \<open>
  C5: when the editor-bypass flag is true, the pages run the enhancer and skip the
  filter; every node of the result carries
  \<^verbatim>\<open>_accessControl = { allowed: true, reason: 'canvas-mode' }\<close>, whatever its
  \<^verbatim>\<open>accessType\<close> and the session, and the result has the nodes of the input, with their
  types, parameters and slot sizes, in the same order.
\<close>

theorem C5_bypass_allows_every_node_and_skips_filter:
  assumes "canvasMode"
  shows "component_access_control isDraftMode canvasMode sess root
       = enhance \<lparr>preview = isDraftMode, isCanvasMode = True, session = sess\<rparr> root
     \<and> (\<forall>n \<in> set (subnodes (component_access_control isDraftMode canvasMode sess root)).
          opt_field (data n) ''_accessControl''
            = JObj [(''allowed'', JBool True), (''reason'', JStr ''canvas-mode'')])
     \<and> map node_shape (subnodes (component_access_control isDraftMode canvasMode sess root))
       = map node_shape (subnodes root)
     \<and> (HomePage_isCanvasMode isDraftMode searchParams \<longrightarrow>
          HomePage_composition isDraftMode searchParams sess root
            = enhance \<lparr>preview = isDraftMode, isCanvasMode = True, session = sess\<rparr> root)
     \<and> (CMSPage_isCanvasMode isDraftMode searchParams \<longrightarrow>
          CMSPage_composition isDraftMode searchParams sess root
            = Rendered (enhance \<lparr>preview = isDraftMode, isCanvasMode = True, session = sess\<rparr> root))"
proof -
  let ?ctx = "\<lparr>preview = isDraftMode, isCanvasMode = True, session = sess\<rparr>"
  have eq: "component_access_control isDraftMode True sess root = enhance ?ctx root"
    by (simp add: component_access_control_def)
  have ac: "opt_field (data n) ''_accessControl''
      = JObj [(''allowed'', JBool True), (''reason'', JStr ''canvas-mode'')]"
    if "n \<in> set (subnodes (enhance ?ctx root))" for n
  proof -
    from that obtain m where "n = enhance ?ctx m" by (rule node_of_enhanced_tree)
    then show ?thesis
      by (simp add: accessControl_of_enhance_component accessControl_enhancer_def
          AccessControlResult_def Let_def)
  qed
  have shape: "map node_shape (subnodes (enhance ?ctx root)) = map node_shape (subnodes root)"
    by (simp add: subnodes_enhance comp_def)
  have home: "HomePage_composition isDraftMode searchParams sess root = enhance ?ctx root"
    if "HomePage_isCanvasMode isDraftMode searchParams"
    using that eq by (simp add: HomePage_composition_def)
  have cms: "CMSPage_composition isDraftMode searchParams sess root = Rendered (enhance ?ctx root)"
    if "CMSPage_isCanvasMode isDraftMode searchParams"
    using that eq by (simp add: CMSPage_composition_def Let_def)
  from assms eq ac shape home cms show ?thesis by simp
qed

theorem C5_witness:
  "opt_field (data (enhance \<lparr>preview = True, isCanvasMode = True, session = JNull\<rparr>
                      (leaf ''NodeX'' ''users''))) ''_accessControl''
     = JObj [(''allowed'', JBool True), (''reason'', JStr ''canvas-mode'')]
   \<and> component_access_control True True JNull scenario_users
     = enhance \<lparr>preview = True, isCanvasMode = True, session = JNull\<rparr> scenario_users
   \<and> map ctype (subnodes (component_access_control True True JNull scenario_users))
     = [''page'', ''NodeX'']"
proof -
  let ?ctx = "\<lparr>preview = True, isCanvasMode = True, session = JNull\<rparr>"
  note c5 = C5_bypass_allows_every_node_and_skips_filter[OF TrueI, of True JNull scenario_users None]
  from c5 have eq: "component_access_control True True JNull scenario_users = enhance ?ctx scenario_users"
    by (rule conjunct1)
  from c5 have "\<forall>n \<in> set (subnodes (component_access_control True True JNull scenario_users)).
      opt_field (data n) ''_accessControl''
        = JObj [(''allowed'', JBool True), (''reason'', JStr ''canvas-mode'')]"
    by (elim conjE)
  moreover have "enhance ?ctx (leaf ''NodeX'' ''users'')
      \<in> set (subnodes (component_access_control True True JNull scenario_users))"
    unfolding eq by (rule enhanced_leaf_in_scenario_users)
  ultimately have ac: "opt_field (data (enhance ?ctx (leaf ''NodeX'' ''users''))) ''_accessControl''
      = JObj [(''allowed'', JBool True), (''reason'', JStr ''canvas-mode'')]"
    by (rule bspec)
  from c5 have "map node_shape (subnodes (component_access_control True True JNull scenario_users))
      = map node_shape (subnodes scenario_users)"
    by (elim conjE)
  then have "map fst (map node_shape (subnodes (component_access_control True True JNull scenario_users)))
      = map fst (map node_shape (subnodes scenario_users))"
    by (rule arg_cong)
  then have "map ctype (subnodes (component_access_control True True JNull scenario_users))
      = map ctype (subnodes scenario_users)"
    by (simp add: node_shape_def comp_def)
  also have "\<dots> = [''page'', ''NodeX'']"
    by (simp add: scenario_users_def leaf_def subnodes.simps children_def array_slots_def)
  finally show ?thesis using eq ac by (intro conjI)
qed

text \<open>
  C7: the enhancer is idempotent.  On a single node the two data callbacks write the same
  \<^verbatim>\<open>_authState\<close> and \<^verbatim>\<open>_accessControl\<close> a second time and leave everything else as it
  is; a second pass over a whole tree with the same context returns the tree of the first
  pass.
\<close>

theorem C7_enhance_idempotent:
  "enhance_component ctx (enhance_component ctx c) = enhance_component ctx c
   \<and> enhance ctx (enhance ctx root) = enhance ctx root
   \<and> accessControl_enhancer (enhance ctx c) ctx = accessControl_enhancer c ctx"
  by (simp add: enhance_component_idem enhance_idem accessControl_enhancer_def)

theorem C7_witness:
  "enhance (visitor alice_session) (enhance (visitor alice_session) scenario_nested)
     = enhance (visitor alice_session) scenario_nested"
  using C7_enhance_idempotent[of "visitor alice_session" scenario_nested scenario_nested]
  by simp


section \<open>Unknown access types and the editor-bypass flag of the pages\<close>

text \<open>
  C9 (as amended): a node whose \<^verbatim>\<open>accessType\<close> is a string other than \<^verbatim>\<open>'everyone'\<close>,
  \<^verbatim>\<open>'users'\<close> and \<^verbatim>\<open>'anonymous'\<close> gets \<^verbatim>\<open>_accessControl.allowed = true\<close> for every
  session and every mode, as a node without \<^verbatim>\<open>accessType\<close> does, and no error is raised
  (the callback has no failing branch).  The reason it gets is \<^verbatim>\<open>'authorized'\<close>, where a
  node without \<^verbatim>\<open>accessType\<close> gets \<^verbatim>\<open>'everyone'\<close>; only the empty string gets
  \<^verbatim>\<open>'everyone'\<close>, and under editor bypass both get \<^verbatim>\<open>'canvas-mode'\<close>.
\<close>

theorem C9_unknown_accessType_is_allowed:
  assumes "accessType_of c = JStr s"
    and "s \<noteq> ''everyone''" and "s \<noteq> ''users''" and "s \<noteq> ''anonymous''"
    and "accessType_of c0 = JUndefined"
  shows "field (accessControl_enhancer c ctx) ''allowed'' = JBool True
     \<and> field (accessControl_enhancer c ctx) ''allowed''
         = field (accessControl_enhancer c0 ctx) ''allowed''
     \<and> accessControl_enhancer c ctx
         = AccessControlResult True
             (if isCanvasMode ctx then ''canvas-mode''
              else if s = [] then ''everyone'' else ''authorized'')
     \<and> accessControl_enhancer c0 ctx
         = AccessControlResult True (if isCanvasMode ctx then ''canvas-mode'' else ''everyone'')
     \<and> (\<forall>n \<in> set (subnodes (enhance ctx root)).
          accessType_of n = JStr s \<longrightarrow>
          field (opt_field (data n) ''_accessControl'') ''allowed'' = JBool True)"
proof -
  have unknown: "accessControl_enhancer x ctx
      = AccessControlResult True
          (if isCanvasMode ctx then ''canvas-mode''
           else if s = [] then ''everyone'' else ''authorized'')"
    if "accessType_of x = JStr s" for x
    using that assms(2-4) by (simp add: accessControl_enhancer_def Let_def)
  have absent: "accessControl_enhancer c0 ctx
      = AccessControlResult True (if isCanvasMode ctx then ''canvas-mode'' else ''everyone'')"
    using assms(5) by (simp add: accessControl_enhancer_def Let_def)
  have tree: "field (opt_field (data n) ''_accessControl'') ''allowed'' = JBool True"
    if "n \<in> set (subnodes (enhance ctx root))" "accessType_of n = JStr s" for n
  proof -
    from that(1) obtain m where n: "n = enhance ctx m" by (rule node_of_enhanced_tree)
    with that(2) have "accessType_of m = JStr s" by simp
    from unknown[OF this] show ?thesis
      unfolding n accessControl_of_enhance by (simp add: AccessControlResult_def)
  qed
  from unknown[OF assms(1)] absent tree show ?thesis
    by (simp add: AccessControlResult_def)
qed

theorem C9_witness:
  "field (accessControl_enhancer (leaf ''NodeX'' ''admins'') (visitor JNull)) ''allowed'' = JBool True
   \<and> accessControl_enhancer (leaf ''NodeX'' ''admins'') (visitor alice_session)
       = AccessControlResult True ''authorized''
   \<and> accessControl_enhancer (Component ''NodeX'' None None None) (visitor alice_session)
       = AccessControlResult True ''everyone''"
proof -
  have 0: "accessType_of (Component ''NodeX'' None None None) = JUndefined"
    by (simp add: accessType_of_def opt_field_def)
  have 1: "accessType_of (leaf ''NodeX'' ''admins'') = JStr ''admins''" by simp
  have 2: "''admins'' \<noteq> ''everyone''" "''admins'' \<noteq> ''users''" "''admins'' \<noteq> ''anonymous''"
    by simp_all
  from C9_unknown_accessType_is_allowed[OF 1 2 0, of "visitor JNull" scenario_users]
       C9_unknown_accessType_is_allowed[OF 1 2 0, of "visitor alice_session" scenario_users]
  show ?thesis by (simp add: visitor_def AccessControlResult_def)
qed

theorem C9_counterexample:
  "opt_field (data (enhance (visitor JNull) (leaf ''NodeX'' ''admins''))) ''_accessControl''
     \<noteq> opt_field (data (enhance (visitor JNull) (Component ''NodeX'' None None None)))
         ''_accessControl''"
  unfolding accessControl_of_enhance
  by (simp add: accessControl_enhancer_def Let_def accessType_of_def opt_field_def visitor_def
      AccessControlResult_def leaf_def accessType_parameter_def)

lemma getCanvasMode_isCanvasMode_conjunction:
  "truthy (getCanvasMode_isCanvasMode isContextualEditing isDraftMode serverDraftMode)
     \<longleftrightarrow> truthy isContextualEditing \<and> (truthy isDraftMode \<or> serverDraftMode)"
  by (simp add: getCanvasMode_isCanvasMode_def js_and_def js_or_def)

lemma page_isCanvasMode_disjunction:
  "CMSPage_isCanvasMode isDraftMode searchParams
     \<longleftrightarrow> isDraftMode \<or> is_incontext_editing_mode searchParams"
  "HomePage_isCanvasMode isDraftMode searchParams
     \<longleftrightarrow> isDraftMode \<or> is_incontext_editing_mode searchParams"
  by (simp_all add: CMSPage_isCanvasMode_def HomePage_isCanvasMode_def)

text \<open>
  C1: the claim fails on the pages.  With draft mode off, the query string
  \<^verbatim>\<open>?is_incontext_editing_mode=true\<close> alone makes \<^verbatim>\<open>isCanvasMode\<close> true in \<^verbatim>\<open>CMSPage\<close>
  and in \<^verbatim>\<open>HomePage\<close>, where \<^verbatim>\<open>getCanvasMode\<close> answers false for the same indicators.
  For a visitor without a session the node for users only is then annotated
  \<^verbatim>\<open>canvas-mode\<close> and stays in slot main; without the query flag it is removed.
\<close>

theorem C1_query_flag_alone_grants_bypass:
  "CMSPage_isCanvasMode False editing_query = True
   \<and> HomePage_isCanvasMode False editing_query = True
   \<and> truthy (getCanvasMode_isCanvasMode (JBool True) (JBool False) False) = False
   \<and> HomePage_composition False editing_query JNull scenario_users
       = Component ''page'' None (Some (enhancer_data False JNull True ''canvas-mode''))
           (Some [(''main'', SlotArray
              [Component ''NodeX'' (Some (accessType_parameter ''users''))
                 (Some (enhancer_data False JNull True ''canvas-mode'')) None])])
   \<and> CMSPage_composition False editing_query JNull scenario_users
       = Rendered (Component ''page'' None (Some (enhancer_data False JNull True ''canvas-mode''))
           (Some [(''main'', SlotArray
              [Component ''NodeX'' (Some (accessType_parameter ''users''))
                 (Some (enhancer_data False JNull True ''canvas-mode'')) None])]))
   \<and> HomePage_composition False None JNull scenario_users
       = Component ''page'' None (Some (enhancer_data False JNull True ''everyone''))
           (Some [(''main'', SlotArray [])])"
proof -
  have flag: "is_incontext_editing_mode editing_query" "\<not> is_incontext_editing_mode None"
    by (simp_all add: is_incontext_editing_mode_def editing_query_def)
  have bypass: "enhance \<lparr>preview = False, isCanvasMode = True, session = JNull\<rparr> scenario_users
      = Component ''page'' None (Some (enhancer_data False JNull True ''canvas-mode''))
           (Some [(''main'', SlotArray
              [Component ''NodeX'' (Some (accessType_parameter ''users''))
                 (Some (enhancer_data False JNull True ''canvas-mode'')) None])])"
    by (simp add: enhance_eq enhance_component_def set_data_def map_array_slots_def
        accessControl_enhancer_def authState_enhancer_def js_or_def scenario_users_def leaf_def
        enhancer_data_def)
  have plain: "enhance \<lparr>preview = False, isCanvasMode = False, session = JNull\<rparr> scenario_users
      = Component ''page'' None (Some (enhancer_data False JNull True ''everyone''))
           (Some [(''main'', SlotArray
              [Component ''NodeX'' (Some (accessType_parameter ''users''))
                 (Some (enhancer_data False JNull False ''requires-auth'')) None])])"
    by (simp add: enhance_eq enhance_component_def set_data_def map_array_slots_def
        accessControl_enhancer_def authState_enhancer_def js_or_def scenario_users_def leaf_def
        enhancer_data_def accessType_of_def opt_field_def accessType_parameter_def Let_def)
  have filtered: "filterUnauthorizedComponents
        (Component ''page'' None (Some (enhancer_data False JNull True ''everyone''))
           (Some [(''main'', SlotArray
              [Component ''NodeX'' (Some (accessType_parameter ''users''))
                 (Some (enhancer_data False JNull False ''requires-auth'')) None])]))
      = Component ''page'' None (Some (enhancer_data False JNull True ''everyone''))
           (Some [(''main'', SlotArray [])])"
    by (simp add: filterUnauthorizedComponents_eq map_array_slots_def filterSlot_Cons is_kept_def
        opt_field_def enhancer_data_def AccessControlResult_def)
  have acc: "accessType_of scenario_users = JUndefined"
    by (simp add: accessType_of_def scenario_users_def opt_field_def)
  show ?thesis
    by (simp add: page_isCanvasMode_disjunction flag getCanvasMode_isCanvasMode_conjunction
        HomePage_composition_def CMSPage_composition_def component_access_control_def
        bypass plain filtered acc)
qed

end
